theory Spec2Isabelle
  imports
    Main
    "HOL-Library.Word"
    "HOL-Library.Char_ord"
    "HOL-Library.List_Lexorder"
    "HOL-Library.Sublist"
begin

unbundle bit_operations_syntax

section \<open>Text primitives\<close>

text \<open>
  Python strings are sequences of code points. The model is \<^typ>\<open>string\<close>, each
  \<^typ>\<open>char\<close> standing for the code point of the same number, so the model covers the
  texts over U+0000..U+00FF. On that range the classes below are the ones of Python 3:
  \<^verbatim>\<open>\d\<close> is 0-9, \<^verbatim>\<open>\w\<close> is the alphanumeric code points and the underscore,
  and \<^verbatim>\<open>str.strip()\<close> removes the code points for which \<^verbatim>\<open>str.isspace()\<close> holds.
  Strings are compared as Python compares them: lexicographically by code point.
\<close>

definition newline :: char where
  "newline = CHR 0x0A"

definition is_digit :: "char \<Rightarrow> bool" where
  "is_digit c = (CHR ''0'' \<le> c \<and> c \<le> CHR ''9'')"

definition is_word :: "char \<Rightarrow> bool" where
  "is_word c =
     (is_digit c \<or> (CHR ''A'' \<le> c \<and> c \<le> CHR ''Z'') \<or> c = CHR ''_''
      \<or> (CHR ''a'' \<le> c \<and> c \<le> CHR ''z'')
      \<or> c = CHR 0xAA \<or> c = CHR 0xB2 \<or> c = CHR 0xB3 \<or> c = CHR 0xB5
      \<or> c = CHR 0xB9 \<or> c = CHR 0xBA \<or> (CHR 0xBC \<le> c \<and> c \<le> CHR 0xBE)
      \<or> (CHR 0xC0 \<le> c \<and> c \<le> CHR 0xD6) \<or> (CHR 0xD8 \<le> c \<and> c \<le> CHR 0xF6)
      \<or> CHR 0xF8 \<le> c)"

definition is_space :: "char \<Rightarrow> bool" where
  "is_space c =
     ((CHR 0x09 \<le> c \<and> c \<le> CHR 0x0D) \<or> (CHR 0x1C \<le> c \<and> c \<le> CHR 0x20)
      \<or> c = CHR 0x85 \<or> c = CHR 0xA0)"

text \<open>\<^verbatim>\<open>str.lower()\<close> on one code point.\<close>

definition lower_char :: "char \<Rightarrow> char" where
  "lower_char c =
     (if (CHR ''A'' \<le> c \<and> c \<le> CHR ''Z'')
         \<or> (CHR 0xC0 \<le> c \<and> c \<le> CHR 0xDE \<and> c \<noteq> CHR 0xD7)
      then char_of (of_char c + (32 :: nat)) else c)"

definition lower :: "string \<Rightarrow> string" where
  "lower s = map lower_char s"

text \<open>\<^verbatim>\<open>str.strip()\<close>: leading and trailing whitespace removed.\<close>

definition strip :: "string \<Rightarrow> string" where
  "strip s = rev (dropWhile is_space (rev (dropWhile is_space s)))"

text \<open>\<^verbatim>\<open>sub in s\<close> and \<^verbatim>\<open>s.startswith(p)\<close>.\<close>

fun contains :: "string \<Rightarrow> string \<Rightarrow> bool" where
  "contains sub [] = (sub = [])"
| "contains sub (c # cs) = (prefix sub (c # cs) \<or> contains sub cs)"

definition startswith :: "string \<Rightarrow> string \<Rightarrow> bool" where
  "startswith s p = prefix p s"

text \<open>\<^verbatim>\<open>s.replace(c, '')\<close> for a one-character pattern.\<close>

definition remove_char :: "char \<Rightarrow> string \<Rightarrow> string" where
  "remove_char c s = filter (\<lambda>x. x \<noteq> c) s"

text \<open>\<^verbatim>\<open>s.split('\n')\<close> and \<^verbatim>\<open>'\n'.join(xs)\<close>.\<close>

fun split_nl :: "string \<Rightarrow> string list" where
  "split_nl [] = [[]]"
| "split_nl (c # cs) =
     (if c = newline then [] # split_nl cs
      else (c # hd (split_nl cs)) # tl (split_nl cs))"

fun join_nl :: "string list \<Rightarrow> string" where
  "join_nl [] = []"
| "join_nl [x] = x"
| "join_nl (x # y # ys) = x @ newline # join_nl (y # ys)"

text \<open>The decimal rendering of a number, as an f-string renders an \<^verbatim>\<open>int\<close>.\<close>

definition digit_char :: "nat \<Rightarrow> char" where
  "digit_char d = char_of (of_char CHR ''0'' + d)"

fun show_nat :: "nat \<Rightarrow> string" where
  "show_nat n = (if n < 10 then [digit_char n] else show_nat (n div 10) @ [digit_char (n mod 10)])"

declare show_nat.simps [simp del]

section \<open>SHA-256 (\<^verbatim>\<open>hashlib.sha256(...).hexdigest()\<close>)\<close>

text \<open>
  \<^verbatim>\<open>hashlib\<close> is Python's library, not code of the program. Its SHA-256 is modelled after
  the standard (FIPS 180-4): padding, message schedule, 64 rounds for each block of 64
  bytes, and the eight words of the state in lower-case hexadecimal.
\<close>

type_synonym w32 = "32 word"

type_synonym sha_state = "w32 \<times> w32 \<times> w32 \<times> w32 \<times> w32 \<times> w32 \<times> w32 \<times> w32"

definition rotr :: "nat \<Rightarrow> w32 \<Rightarrow> w32" where
  "rotr n x = (drop_bit n x) OR (push_bit (32 - n) x)"

text \<open>
  The constants of the standard are the first 32 bits of the fractional parts of the
  cube roots (for the rounds) and the square roots (for the initial state) of the first
  primes. \<open>iroot k n\<close> is the integer \<open>k\<close>-th root of \<open>n\<close> below \<open>2 ^ 36\<close>, found
  bit by bit from the top.
\<close>

definition primes :: "int list" where
  "primes = [2, 3, 5, 7, 11, 13, 17, 19, 23, 29, 31, 37, 41, 43, 47, 53,
     59, 61, 67, 71, 73, 79, 83, 89, 97, 101, 103, 107, 109, 113, 127, 131,
     137, 139, 149, 151, 157, 163, 167, 173, 179, 181, 191, 193, 197, 199, 211, 223,
     227, 229, 233, 239, 241, 251, 257, 263, 269, 271, 277, 281, 283, 293, 307, 311]"

definition root_bit :: "nat \<Rightarrow> int \<Rightarrow> int \<Rightarrow> nat \<Rightarrow> int" where
  "root_bit k n r b = (if (r + 2 ^ b) ^ k \<le> n then r + 2 ^ b else r)"

definition iroot :: "nat \<Rightarrow> int \<Rightarrow> int" where
  "iroot k n = foldl (root_bit k n) 0 (rev [0..<36])"

definition fraction_bits :: "nat \<Rightarrow> int \<Rightarrow> w32" where
  "fraction_bits k p = word_of_int (iroot k (p * 2 ^ (32 * k)))"

definition sha_K :: "w32 list" where
  "sha_K = map (fraction_bits 3) primes"

definition sha_H0 :: sha_state where
  "sha_H0 =
     (let hs = map (fraction_bits 2) (take 8 primes)
      in (hs ! 0, hs ! 1, hs ! 2, hs ! 3, hs ! 4, hs ! 5, hs ! 6, hs ! 7))"

text \<open>Padding: a 1 bit, zeros up to 56 mod 64 bytes, the bit length as 8 bytes, big-endian.\<close>

definition pad :: "8 word list \<Rightarrow> 8 word list" where
  "pad bs =
     (let n = length bs; z = (119 - n mod 64) mod 64
      in bs @ [0x80] @ replicate z 0
            @ map (\<lambda>i. ucast (drop_bit (8 * i) (word_of_nat (8 * n) :: 64 word))) (rev [0..<8]))"

fun be32 :: "8 word list \<Rightarrow> w32 list" where
  "be32 (a # b # c # d # rest) =
     (push_bit 24 (ucast a) OR push_bit 16 (ucast b) OR push_bit 8 (ucast c) OR ucast d) # be32 rest"
| "be32 _ = []"

text \<open>The message schedule: 16 words extended to 64.\<close>

fun extend :: "nat \<Rightarrow> w32 list \<Rightarrow> w32 list" where
  "extend 0 w = w"
| "extend (Suc k) w =
    (let n = length w; a = w ! (n - 15); b = w ! (n - 2);
         s0 = rotr 7 a XOR rotr 18 a XOR drop_bit 3 a;
         s1 = rotr 17 b XOR rotr 19 b XOR drop_bit 10 b
     in extend k (w @ [w ! (n - 16) + s0 + w ! (n - 7) + s1]))"

definition round :: "sha_state \<Rightarrow> w32 \<times> w32 \<Rightarrow> sha_state" where
  "round st kw = (case st of (a, b, c, d, e, f, g, h) \<Rightarrow> case kw of (k, w) \<Rightarrow>
    (let S1 = rotr 6 e XOR rotr 11 e XOR rotr 25 e;
         ch = (e AND f) XOR (NOT e AND g);
         t1 = h + S1 + ch + k + w;
         S0 = rotr 2 a XOR rotr 13 a XOR rotr 22 a;
         mj = (a AND b) XOR (a AND c) XOR (b AND c);
         t2 = S0 + mj
     in (t1 + t2, a, b, c, d + t1, e, f, g)))"

definition add_state :: "sha_state \<Rightarrow> sha_state \<Rightarrow> sha_state" where
  "add_state s t =
     (case s of (a, b, c, d, e, f, g, h) \<Rightarrow> case t of (a', b', c', d', e', f', g', h') \<Rightarrow>
        (a + a', b + b', c + c', d + d', e + e', f + f', g + g', h + h'))"

definition compress :: "sha_state \<Rightarrow> w32 list \<Rightarrow> sha_state" where
  "compress hs block = add_state hs (foldl round hs (zip sha_K (extend 48 block)))"

fun chunks :: "nat \<Rightarrow> 'a list \<Rightarrow> 'a list list" where
  "chunks 0 xs = []"
| "chunks (Suc n) xs = take 16 xs # chunks n (drop 16 xs)"

definition hex_digit :: "nat \<Rightarrow> char" where
  "hex_digit n = ''0123456789abcdef'' ! (n mod 16)"

definition hex32 :: "w32 \<Rightarrow> string" where
  "hex32 w = map (\<lambda>i. hex_digit (unat (take_bit 4 (drop_bit (4 * i) w)))) (rev [0..<8])"

definition sha256_hex :: "8 word list \<Rightarrow> string" where
  "sha256_hex bs =
     (let ws = be32 (pad bs)
      in (case foldl compress sha_H0 (chunks (length ws div 16) ws) of
            (a, b, c, d, e, f, g, h) \<Rightarrow> concat (map hex32 [a, b, c, d, e, f, g, h])))"

text \<open>\<^verbatim>\<open>str.encode()\<close>: UTF-8, one byte below U+0080 and two bytes up to U+00FF.\<close>

definition encode_char :: "char \<Rightarrow> 8 word list" where
  "encode_char c =
     (let n = (of_char c :: nat)
      in if n < 128 then [of_nat n] else [of_nat (192 + n div 64), of_nat (128 + n mod 64)])"

definition encode :: "string \<Rightarrow> 8 word list" where
  "encode s = concat (map encode_char s)"

section \<open>AdifParser\<close>

type_synonym adif_record = "string \<rightharpoonup> string"

text \<open>
  One attempt of the pattern \<^verbatim>\<open><(\w+):(\d+)>([^<]*)\<close> at the start of the text. Each
  quantifier is greedy and the character after it is outside its class, so backtracking
  never finds another match: the groups are the longest runs. The result is the three
  groups and the text after the match. \<^verbatim>\<open>re.IGNORECASE\<close> changes nothing: the classes
  are closed under case and the literals are punctuation.
\<close>

definition match_tag :: "string \<Rightarrow> ((string \<times> string \<times> string) \<times> string) option" where
  "match_tag s =
     (case s of [] \<Rightarrow> None | c # s1 \<Rightarrow>
        if c \<noteq> CHR ''<'' then None
        else let key = takeWhile is_word s1; s2 = dropWhile is_word s1 in
          if key = [] then None
          else (case s2 of [] \<Rightarrow> None | c2 # s3 \<Rightarrow>
            if c2 \<noteq> CHR '':'' then None
            else let len = takeWhile is_digit s3; s4 = dropWhile is_digit s3 in
              if len = [] then None
              else (case s4 of [] \<Rightarrow> None | c4 # s5 \<Rightarrow>
                if c4 \<noteq> CHR ''>'' then None
                else Some ((key, len, takeWhile (\<lambda>x. x \<noteq> CHR ''<'') s5),
                           dropWhile (\<lambda>x. x \<noteq> CHR ''<'') s5))))"

text \<open>\<^verbatim>\<open>re.findall\<close>: the matches from left to right, each search resuming where the
  previous match ended, and one character further where no match starts.\<close>

function findall :: "string \<Rightarrow> (string \<times> string \<times> string) list" where
  "findall [] = []"
| "findall (c # cs) =
     (case match_tag (c # cs) of
        None \<Rightarrow> findall cs
      | Some (m, rest) \<Rightarrow> m # findall rest)"
  by pat_completeness auto
termination
proof (relation "measure length")
  show "wf (measure (length :: string \<Rightarrow> nat))" by simp
next
  fix c :: char and cs :: string
  show "(cs, c # cs) \<in> measure length" by simp
next
  fix c :: char and cs rest :: string and m x
  assume "match_tag (c # cs) = Some x" and "(m, rest) = x"
  then have "match_tag (c # cs) = Some (m, rest)" by simp
  then obtain s1 s3 s5 where
    "c # cs = CHR ''<'' # s1" "dropWhile is_word s1 = CHR '':'' # s3"
    "dropWhile is_digit s3 = CHR ''>'' # s5" "rest = dropWhile (\<lambda>x. x \<noteq> CHR ''<'') s5"
    by (auto simp: match_tag_def Let_def split: list.splits if_splits)
  moreover have "length (dropWhile (\<lambda>x. x \<noteq> CHR ''<'') s5) \<le> length s5"
    "length (dropWhile is_digit s3) \<le> length s3" "length (dropWhile is_word s1) \<le> length s1"
    by (rule length_dropWhile_le)+
  ultimately show "(rest, c # cs) \<in> measure length" by simp
qed

definition parse_line :: "string \<Rightarrow> adif_record option" where
  "parse_line line =
     (let matches = findall line in
      if matches = [] then None
      else let record = foldl (\<lambda>r (key, len, val). r(lower key \<mapsto> val)) Map.empty matches in
        if record ''call'' = None \<or> record ''qso_date'' = None \<or> record ''time_on'' = None
        then None
        else Some record)"

text \<open>\<^verbatim>\<open>record.get(k, '')\<close>.\<close>

definition get_field :: "adif_record \<Rightarrow> string \<Rightarrow> string" where
  "get_field r k = (case r k of None \<Rightarrow> [] | Some v \<Rightarrow> v)"

definition normalized :: "adif_record \<Rightarrow> string" where
  "normalized r =
     get_field r ''qso_date'' @ ''_'' @ get_field r ''time_on'' @ ''_'' @ get_field r ''call''
       @ ''_'' @ get_field r ''freq'' @ ''_'' @ get_field r ''mode''"

definition calculate_hash :: "string \<Rightarrow> string" where
  "calculate_hash adif_line =
     (case parse_line adif_line of
        None \<Rightarrow> []
      | Some record \<Rightarrow> sha256_hex (encode (normalized record)))"

text \<open>
  \<^verbatim>\<open>read_file\<close>. The file system is the function \<open>fs\<close>: the outcome of the open
  (and read) attempt of each number, an \<^verbatim>\<open>IOError\<close> or the lines of the file. The trace
  records every attempt and every sleep, the duration in milliseconds. A loop that ran
  out without returning would return \<^verbatim>\<open>None\<close>, which the loop of \<^verbatim>\<open>push_file\<close> cannot
  iterate over.
\<close>

datatype io_error = IOError string

datatype py_error = TypeError

datatype io_event = Open_attempt | Sleep nat

definition max_retries :: nat where
  "max_retries = 5"

fun read_loop ::
  "(nat \<Rightarrow> io_error + string list) \<Rightarrow> nat list \<Rightarrow> io_event list
     \<Rightarrow> (io_error + string list option) \<times> io_event list" where
  "read_loop fs [] tr = (Inr None, tr)"
| "read_loop fs (attempt # rest) tr =
     (case fs attempt of
        Inr lines \<Rightarrow> (Inr (Some lines), tr @ [Open_attempt])
      | Inl e \<Rightarrow>
          if attempt < max_retries - 1
          then read_loop fs rest (tr @ [Open_attempt, Sleep 500])
          else (Inl e, tr @ [Open_attempt]))"

definition read_file ::
  "(nat \<Rightarrow> io_error + string list) \<Rightarrow> (io_error + string list option) \<times> io_event list" where
  "read_file fs = read_loop fs [0..<max_retries] []"

section \<open>Config: the duplicate cache\<close>

text \<open>
  The cache file is its content, \<open>None\<close> when the file does not exist. Reads and writes
  of the file itself succeed in the model.
\<close>

definition load_uploaded_qsos :: "string option \<Rightarrow> string set" where
  "load_uploaded_qsos cache =
     (case cache of None \<Rightarrow> {} | Some text \<Rightarrow> set (split_nl (strip text)))"

definition save_uploaded_qso :: "string \<Rightarrow> string option \<Rightarrow> string option" where
  "save_uploaded_qso qso_hash cache =
     (let uploaded = insert qso_hash (load_uploaded_qsos cache)
      in Some (join_nl (sorted_list_of_set uploaded)))"

text \<open>Menu choice 5: \<^verbatim>\<open>Config.CACHE_FILE.unlink(missing_ok=True)\<close>.\<close>

definition clear_cache :: "string option \<Rightarrow> string option" where
  "clear_cache cache = None"

section \<open>CloudlogPusher\<close>

datatype response = Http nat string | RequestException string

record payload =
  p_key :: string
  p_station_profile_id :: string
  p_type :: string
  p_string :: string

record pusher =
  api_key :: string
  station_id :: string

text \<open>
  The world outside the process: the cache file, the requests POSTed to the endpoint so
  far, and the server, which gives the outcome of the POST of each number.
\<close>

record world =
  cache_file :: "string option"
  posts :: "payload list"
  server :: "nat \<Rightarrow> response"

definition push_record :: "pusher \<Rightarrow> string \<Rightarrow> world \<Rightarrow> (bool \<times> string option) \<times> world" where
  "push_record p adif_line w =
     (case parse_line adif_line of
        None \<Rightarrow> ((False, Some ''Invalid ADIF format''), w)
      | Some record0 \<Rightarrow>
          let record = (case record0 ''tx_pwr'' of
                          None \<Rightarrow> record0
                        | Some v \<Rightarrow> record0(''tx_pwr'' \<mapsto> strip (remove_char CHR ''W'' v)));
              body = \<lparr>p_key = api_key p, p_station_profile_id = station_id p,
                      p_type = ''adif'', p_string = adif_line\<rparr>;
              resp = server w (length (posts w));
              w' = w\<lparr>posts := posts w @ [body]\<rparr>
          in (case resp of
                Http status_code text \<Rightarrow>
                  if status_code = 200 \<or> status_code = 201 then ((True, None), w')
                  else ((False, Some (show_nat status_code @ '': '' @ take 100 text)), w')
              | RequestException e \<Rightarrow> ((False, Some e), w')))"

record tally =
  success :: nat
  failed :: nat
  skipped :: nat
  errors :: "string list"

text \<open>The body of the loop of \<^verbatim>\<open>push_file\<close> for one line of the file.\<close>

definition push_line ::
  "pusher \<Rightarrow> string set \<Rightarrow> nat \<Rightarrow> string \<Rightarrow> tally \<times> world \<Rightarrow> tally \<times> world" where
  "push_line p uploaded_hashes idx line tw =
     (case tw of (t, w) \<Rightarrow>
        let trimmed = strip line in
        if trimmed = [] \<or> startswith trimmed ''#'' then (t, w)
        else let qso_hash = calculate_hash trimmed in
          if qso_hash \<noteq> [] \<and> qso_hash \<in> uploaded_hashes
          then (t\<lparr>skipped := skipped t + 1\<rparr>, w)
          else (case push_record p trimmed w of (result, w') \<Rightarrow>
            if fst result
            then (t\<lparr>success := success t + 1\<rparr>,
                  if qso_hash \<noteq> []
                  then w'\<lparr>cache_file := save_uploaded_qso qso_hash (cache_file w')\<rparr>
                  else w')
            else (t\<lparr>failed := failed t + 1,
                    errors := errors t @ [''  Line '' @ show_nat idx @ '': ''
                                @ (case snd result of None \<Rightarrow> ''None'' | Some r \<Rightarrow> r)]\<rparr>,
                  w')))"

fun push_lines ::
  "pusher \<Rightarrow> string set \<Rightarrow> nat \<Rightarrow> string list \<Rightarrow> tally \<times> world \<Rightarrow> tally \<times> world" where
  "push_lines p uploaded_hashes idx [] tw = tw"
| "push_lines p uploaded_hashes idx (line # lines) tw =
     push_lines p uploaded_hashes (idx + 1) lines (push_line p uploaded_hashes idx line tw)"

record counts =
  c_success :: nat
  c_failed :: nat
  c_skipped :: nat

definition push_file ::
  "pusher \<Rightarrow> (nat \<Rightarrow> io_error + string list) \<Rightarrow> bool \<Rightarrow> world
     \<Rightarrow> (py_error + counts) \<times> world" where
  "push_file p fs skip_duplicates w =
     (case fst (read_file fs) of
        Inl e \<Rightarrow> (Inr \<lparr>c_success = 0, c_failed = 0, c_skipped = 0\<rparr>, w)
      | Inr None \<Rightarrow> (Inl TypeError, w)
      | Inr (Some lines) \<Rightarrow>
          let uploaded_hashes = (if skip_duplicates then load_uploaded_qsos (cache_file w) else {})
          in (case push_lines p uploaded_hashes 1 lines
                     (\<lparr>success = 0, failed = 0, skipped = 0, errors = []\<rparr>, w) of
                (t, w') \<Rightarrow>
                  (Inr \<lparr>c_success = success t, c_failed = failed t, c_skipped = skipped t\<rparr>, w')))"

section \<open>WsjtxListener\<close>

text \<open>
  \<^verbatim>\<open>re.search(r'<QSO_DATE:\d+>\d+.*?<EOR>', text_data)\<close>. The lazy \<^verbatim>\<open>.*?\<close> stops at the
  first \<^verbatim>\<open><EOR>\<close> and does not cross a newline; giving back digits of the second
  \<^verbatim>\<open>\d+\<close> only hands them to \<^verbatim>\<open>.*?\<close>, so the match is the same.
\<close>

fun lazy_eor :: "string \<Rightarrow> string option" where
  "lazy_eor [] = None"
| "lazy_eor (c # cs) =
     (if prefix ''<EOR>'' (c # cs) then Some []
      else if c = newline then None
      else map_option ((#) c) (lazy_eor cs))"

definition match_adif :: "string \<Rightarrow> string option" where
  "match_adif s =
     (if \<not> prefix ''<QSO_DATE:'' s then None
      else let s1 = drop 10 s; d1 = takeWhile is_digit s1; s2 = dropWhile is_digit s1 in
        if d1 = [] then None
        else (case s2 of [] \<Rightarrow> None | c # s3 \<Rightarrow>
          if c \<noteq> CHR ''>'' then None
          else let d2 = takeWhile is_digit s3; s4 = dropWhile is_digit s3 in
            if d2 = [] then None
            else (case lazy_eor s4 of
                    None \<Rightarrow> None
                  | Some mid \<Rightarrow> Some (''<QSO_DATE:'' @ d1 @ ''>'' @ d2 @ mid @ ''<EOR>''))))"

fun search_adif :: "string \<Rightarrow> string option" where
  "search_adif [] = None"
| "search_adif (c # cs) =
     (case match_adif (c # cs) of Some m \<Rightarrow> Some m | None \<Rightarrow> search_adif cs)"

record listener =
  last_uploaded_qsos :: "string set"

definition new_listener :: "world \<Rightarrow> listener" where
  "new_listener w = \<lparr>last_uploaded_qsos = load_uploaded_qsos (cache_file w)\<rparr>"

text \<open>
  \<^verbatim>\<open>_parse_message\<close> on the decoded text of a datagram. The body runs inside
  \<^verbatim>\<open>try ... except Exception: pass\<close>, so the handler returns to the receive loop on
  every path.
\<close>

definition parse_message :: "pusher \<Rightarrow> string \<Rightarrow> listener \<times> world \<Rightarrow> listener \<times> world" where
  "parse_message p text_data lw =
     (case lw of (l, w) \<Rightarrow>
        if \<not> contains ''<QSO_DATE:'' text_data \<or> \<not> contains ''<CALL:'' text_data then (l, w)
        else (case search_adif text_data of
          None \<Rightarrow> (l, w)
        | Some adif_line \<Rightarrow>
            let qso_hash = calculate_hash adif_line in
            if qso_hash \<in> last_uploaded_qsos l then (l, w)
            else (case parse_line adif_line of
              None \<Rightarrow> (l, w)
            | Some record \<Rightarrow>
                (case push_record p adif_line w of (result, w') \<Rightarrow>
                   if fst result
                   then (if qso_hash \<noteq> []
                         then (l\<lparr>last_uploaded_qsos := insert qso_hash (last_uploaded_qsos l)\<rparr>,
                               w'\<lparr>cache_file := save_uploaded_qso qso_hash (cache_file w')\<rparr>)
                         else (l, w'))
                   else (l, w')))))"

section \<open>Notions of the specification\<close>

text \<open>
  A duplicate key is a SHA-256 digest in hexadecimal: 64 characters out of 0-9 and a-f.
\<close>

definition is_hex :: "char \<Rightarrow> bool" where
  "is_hex c = (is_digit c \<or> (CHR ''a'' \<le> c \<and> c \<le> CHR ''f''))"

definition is_digest :: "string \<Rightarrow> bool" where
  "is_digest k = (length k = 64 \<and> list_all is_hex k)"

text \<open>The five values a duplicate key is computed from.\<close>

definition identifying_fields ::
  "adif_record \<Rightarrow> string \<times> string \<times> string \<times> string \<times> string" where
  "identifying_fields r =
     (get_field r ''qso_date'', get_field r ''time_on'', get_field r ''call'',
      get_field r ''freq'', get_field r ''mode'')"

text \<open>The request \<^verbatim>\<open>push_record\<close> POSTs for a line, and the responses it takes as success.\<close>

definition request :: "pusher \<Rightarrow> string \<Rightarrow> payload" where
  "request p adif_line =
     \<lparr>p_key = api_key p, p_station_profile_id = station_id p, p_type = ''adif'',
      p_string = adif_line\<rparr>"

fun accepted :: "response \<Rightarrow> bool" where
  "accepted (Http status_code body) = (status_code = 200 \<or> status_code = 201)"
| "accepted (RequestException e) = False"

text \<open>
  The lines of a file \<^verbatim>\<open>push_file\<close> looks at (neither blank nor a comment), and among
  them the valid records and the lines that do not parse.
\<close>

definition is_record_line :: "string \<Rightarrow> bool" where
  "is_record_line line = (strip line \<noteq> [] \<and> \<not> startswith (strip line) ''#'')"

definition valid_record :: "string \<Rightarrow> bool" where
  "valid_record line =
     (is_record_line line \<and> (case parse_line (strip line) of None \<Rightarrow> False | Some r \<Rightarrow> True))"

definition invalid_record :: "string \<Rightarrow> bool" where
  "invalid_record line =
     (is_record_line line \<and> (case parse_line (strip line) of None \<Rightarrow> True | Some r \<Rightarrow> False))"

text \<open>
  The states of the cache file the program produces: the file is absent until the first
  key is saved, every key saved is a digest (both callers save the result of
  \<^verbatim>\<open>calculate_hash\<close> and only when it is not empty), and the menu can delete the file.
\<close>

inductive cache_state :: "string option \<Rightarrow> bool" where
  absent: "cache_state None"
| saved: "cache_state cache \<Longrightarrow> is_digest k \<Longrightarrow> cache_state (save_uploaded_qso k cache)"
| cleared: "cache_state cache \<Longrightarrow> cache_state (clear_cache cache)"

text \<open>The format of such a file: its lines are digests in strictly ascending order.\<close>

definition wf_cache :: "string option \<Rightarrow> bool" where
  "wf_cache cache =
     (case cache of
        None \<Rightarrow> True
      | Some content \<Rightarrow>
          sorted (split_nl content) \<and> distinct (split_nl content)
          \<and> list_all is_digest (split_nl content))"

text \<open>Concrete inputs for the examples.\<close>

definition example_pusher :: pusher where
  "example_pusher = \<lparr>api_key = ''secret'', station_id = ''1''\<rparr>"

definition accepting_world :: world where
  "accepting_world = \<lparr>cache_file = None, posts = [], server = (\<lambda>n. Http 200 ''ok'')\<rparr>"

definition failing_world :: world where
  "failing_world =
     \<lparr>cache_file = None, posts = [], server = (\<lambda>n. Http 500 ''Internal Server Error'')\<rparr>"

definition example_key :: string where
  "example_key = ''0b5d0772905febc05dc150235940180dcf49f49881973d815eced60573501878''"

section \<open>Evaluation on concrete texts\<close>

lemmas eval_parse = parse_line_def match_tag_def Let_def is_word_def is_digit_def less_eq_char_def
  lower_def lower_char_def get_field_def char_of_def bit_Suc_0_iff

lemmas eval_text = strip_def is_space_def startswith_def less_eq_char_def

lemma upt5: "[0..<5] = [0, 1, 2, 3, 4]"
  by (simp add: upt_rec)

section \<open>Duplicate keys are digests\<close>

lemma is_hex_hex_digit: "is_hex (hex_digit n)"
proof -
  have "list_all is_hex ''0123456789abcdef''"
    by (simp add: is_hex_def is_digit_def less_eq_char_def)
  moreover have "n mod 16 < length ''0123456789abcdef''" by simp
  ultimately show ?thesis
    unfolding hex_digit_def list_all_iff using nth_mem by blast
qed

lemma hex32_digest: "length (hex32 w) = 8" "list_all is_hex (hex32 w)"
  by (simp_all add: hex32_def list_all_iff is_hex_hex_digit)

lemma is_digest_sha256_hex: "is_digest (sha256_hex bs)"
  by (simp add: is_digest_def sha256_hex_def Let_def hex32_digest split: prod.splits)

lemma calculate_hash_digest: "parse_line s = Some r \<Longrightarrow> is_digest (calculate_hash s)"
  by (simp add: calculate_hash_def is_digest_sha256_hex)

lemma calculate_hash_invalid: "parse_line s = None \<Longrightarrow> calculate_hash s = []"
  by (simp add: calculate_hash_def)

lemma is_digest_example_key: "is_digest example_key"
  by (simp add: is_digest_def example_key_def is_hex_def is_digit_def less_eq_char_def)


lemma is_hex_not_space: "is_hex c \<Longrightarrow> \<not> is_space c"
  by (auto simp: is_hex_def is_digit_def is_space_def less_eq_char_def)

lemma is_space_newline [simp]: "is_space newline"
  by (simp add: is_space_def newline_def less_eq_char_def)

lemma is_digest_clean:
  assumes "is_digest k"
  shows "k \<noteq> []" and "\<not> is_space (hd k)" and "\<not> is_space (last k)" and "newline \<notin> set k"
proof -
  from assms have l: "length k = 64" and h: "\<forall>c\<in>set k. is_hex c"
    by (simp_all add: is_digest_def list_all_iff)
  from l show ne: "k \<noteq> []" by auto
  from ne h show "\<not> is_space (hd k)" "\<not> is_space (last k)"
    by (auto dest: is_hex_not_space)
  from h show "newline \<notin> set k"
    using is_hex_not_space is_space_newline by blast
qed

section \<open>Lines of the cache file\<close>

lemma split_nl_not_Nil [simp]: "split_nl s \<noteq> []"
  by (induction s) auto

lemma split_nl_append: "split_nl (u @ newline # v) = split_nl u @ split_nl v"
proof (induction u)
  case Nil
  then show ?case by simp
next
  case (Cons c u)
  then show ?case by (cases "split_nl u") auto
qed

lemma split_nl_line: "newline \<notin> set k \<Longrightarrow> split_nl k = [k]"
  by (induction k) auto

lemma split_nl_no_newline: "x \<in> set (split_nl s) \<Longrightarrow> newline \<notin> set x"
proof (induction s arbitrary: x)
  case Nil
  then show ?case by simp
next
  case (Cons c s)
  show ?case
  proof (cases "c = newline")
    case True
    with Cons show ?thesis by auto
  next
    case False
    obtain y ys where s: "split_nl s = y # ys" by (cases "split_nl s") auto
    with Cons.prems False have "x = c # y \<or> x \<in> set ys" by auto
    then show ?thesis
    proof
      assume "x = c # y"
      moreover have "newline \<notin> set y" using Cons.IH [of y] s by simp
      ultimately show ?thesis using False by auto
    next
      assume "x \<in> set ys"
      then show ?thesis using Cons.IH [of x] s by simp
    qed
  qed
qed

lemma join_split_nl: "join_nl (split_nl s) = s"
proof (induction s)
  case Nil
  then show ?case by simp
next
  case (Cons c s)
  obtain y ys where s: "split_nl s = y # ys" by (cases "split_nl s") auto
  with Cons show ?case by (cases ys) auto
qed

lemma join_nl_Cons: "ys \<noteq> [] \<Longrightarrow> join_nl (x # ys) = x @ newline # join_nl ys"
  by (cases ys) auto

lemma join_nl_append:
  "ys \<noteq> [] \<Longrightarrow> zs \<noteq> [] \<Longrightarrow> join_nl (ys @ zs) = join_nl ys @ newline # join_nl zs"
proof (induction ys rule: join_nl.induct)
  case 1
  then show ?case by simp
next
  case (2 x)
  then show ?case by (simp add: join_nl_Cons)
next
  case (3 x y ys)
  then show ?case by simp
qed

lemma split_join_nl:
  "xs \<noteq> [] \<Longrightarrow> \<forall>x\<in>set xs. newline \<notin> set x \<Longrightarrow> split_nl (join_nl xs) = xs"
proof (induction xs rule: join_nl.induct)
  case 1
  then show ?case by simp
next
  case (2 x)
  then show ?case by (simp add: split_nl_line)
next
  case (3 x y ys)
  then show ?case by (simp add: split_nl_append split_nl_line)
qed

lemma join_nl_not_Nil: "x \<in> set xs \<Longrightarrow> x \<noteq> [] \<Longrightarrow> join_nl xs \<noteq> []"
  by (induction xs rule: join_nl.induct) auto

lemma last_join_nl: "xs \<noteq> [] \<Longrightarrow> last xs \<noteq> [] \<Longrightarrow> last (join_nl xs) = last (last xs)"
proof (induction xs rule: join_nl.induct)
  case (3 x y ys)
  then have "join_nl (y # ys) \<noteq> []"
    by (intro join_nl_not_Nil [of "last (y # ys)"]) auto
  with 3 show ?case by simp
qed simp_all

lemma sorted_le_last: "sorted xs \<Longrightarrow> x \<in> set xs \<Longrightarrow> x \<le> last xs"
  by (induction xs) (auto split: if_splits)

text \<open>A line that neither starts nor ends with whitespace survives \<open>strip\<close> of the text around it.\<close>

lemma strip_around:
  assumes "k \<noteq> []" "\<not> is_space (hd k)" "\<not> is_space (last k)"
  shows "strip (a @ k @ b) = dropWhile is_space a @ k @ rev (dropWhile is_space (rev b))"
proof -
  have d: "dropWhile is_space (u @ v @ c) = dropWhile is_space u @ v @ c"
    if "v \<noteq> []" "\<not> is_space (hd v)" for u v c :: string
    using that by (induction u) (auto simp: neq_Nil_conv)
  have 1: "dropWhile is_space (a @ k @ b) = dropWhile is_space a @ k @ b"
    using assms by (intro d)
  have 2: "dropWhile is_space (rev b @ rev k @ c) = dropWhile is_space (rev b) @ rev k @ c" for c
    using assms by (intro d) (simp_all add: hd_rev)
  show ?thesis by (simp add: strip_def 1 2)
qed

lemma strip_id:
  assumes "k \<noteq> []" "\<not> is_space (hd k)" "\<not> is_space (last k)"
  shows "strip k = k"
  using strip_around [OF assms, of "[]" "[]"] by simp

lemma dropWhile_ends:
  assumes "a = [] \<or> last a = c"
  shows "dropWhile P a = [] \<or> last (dropWhile P a) = c"
proof (cases "dropWhile P a = []")
  case True
  then show ?thesis by simp
next
  case False
  then have "a \<noteq> []" by auto
  have "a = takeWhile P a @ dropWhile P a" by simp
  then have "last a = last (dropWhile P a)" using False by (metis last_appendR)
  with assms \<open>a \<noteq> []\<close> show ?thesis by simp
qed

lemma line_in_split:
  assumes "newline \<notin> set k"
    and "a = [] \<or> last a = newline" and "b = [] \<or> hd b = newline"
  shows "k \<in> set (split_nl (a @ k @ b))"
proof -
  have kb: "hd (split_nl (k @ b)) = k"
  proof (cases b)
    case Nil
    then show ?thesis using assms by (simp add: split_nl_line)
  next
    case (Cons c b')
    with assms have "c = newline" by simp
    with Cons show ?thesis using assms by (simp add: split_nl_append split_nl_line)
  qed
  then have kb': "k \<in> set (split_nl (k @ b))"
    by (metis hd_in_set split_nl_not_Nil)
  show ?thesis
  proof (cases a rule: rev_cases)
    case Nil
    then show ?thesis using kb' by simp
  next
    case (snoc a' c)
    with assms have "c = newline" by simp
    with snoc show ?thesis using kb' by (simp add: split_nl_append)
  qed
qed

lemma line_survives:
  assumes "k \<in> set xs" and "k \<noteq> []" "\<not> is_space (hd k)" "\<not> is_space (last k)" "newline \<notin> set k"
  shows "k \<in> set (split_nl (strip (join_nl xs)))"
proof -
  from assms(1) obtain ys zs where xs: "xs = ys @ k # zs" by (meson split_list)
  define a where "a = (if ys = [] then [] else join_nl ys @ [newline])"
  define b where "b = (if zs = [] then [] else newline # join_nl zs)"
  have j: "join_nl xs = a @ k @ b"
  proof (cases "ys = []")
    case True
    then show ?thesis by (cases zs) (simp_all add: xs a_def b_def join_nl_Cons)
  next
    case False
    then show ?thesis
      by (cases zs) (simp_all add: xs a_def b_def join_nl_Cons join_nl_append)
  qed
  have a: "a = [] \<or> last a = newline" and b: "b = [] \<or> hd b = newline"
    by (simp_all add: a_def b_def)
  have a': "dropWhile is_space a = [] \<or> last (dropWhile is_space a) = newline"
    using a by (rule dropWhile_ends)
  have "rev b = [] \<or> last (rev b) = newline" using b by (cases b) auto
  then have "dropWhile is_space (rev b) = [] \<or> last (dropWhile is_space (rev b)) = newline"
    by (rule dropWhile_ends)
  then have b': "rev (dropWhile is_space (rev b)) = [] \<or> hd (rev (dropWhile is_space (rev b))) = newline"
    by (auto simp: hd_rev)
  show ?thesis
    unfolding j strip_around [OF assms(2-4)] using assms(5) a' b' by (rule line_in_split)
qed

section \<open>Loading and saving the cache\<close>

lemma finite_load [simp]: "finite (load_uploaded_qsos cache)"
  by (simp add: load_uploaded_qsos_def split: option.splits)

lemma save_first: "save_uploaded_qso k None = Some k"
  by (simp add: save_uploaded_qso_def load_uploaded_qsos_def)

lemma load_save_member:
  assumes "is_digest k" and "k = h \<or> k \<in> load_uploaded_qsos cache"
  shows "k \<in> load_uploaded_qsos (save_uploaded_qso h cache)"
proof -
  define ks where "ks = sorted_list_of_set (insert h (load_uploaded_qsos cache))"
  have "set ks = insert h (load_uploaded_qsos cache)"
    unfolding ks_def by (rule set_sorted_list_of_set) simp
  with assms(2) have "k \<in> set ks" by auto
  then have "k \<in> set (split_nl (strip (join_nl ks)))"
    using is_digest_clean [OF assms(1)] by (rule line_survives)
  then show ?thesis
    by (simp add: save_uploaded_qso_def load_uploaded_qsos_def ks_def)
qed

lemma wf_cache_text:
  assumes "wf_cache (Some text)"
  shows "strip text = text" and "load_uploaded_qsos (Some text) = set (split_nl text)"
proof -
  define ks where "ks = split_nl text"
  have t: "text = join_nl ks" by (simp add: ks_def join_split_nl)
  have ne: "ks \<noteq> []" by (simp add: ks_def)
  have d: "\<forall>x\<in>set ks. is_digest x" using assms by (simp add: wf_cache_def ks_def list_all_iff)
  have "hd ks \<in> set ks" "last ks \<in> set ks" using ne by simp_all
  with d have h: "is_digest (hd ks)" "is_digest (last ks)" by blast+
  have "hd text = hd (hd ks)"
    unfolding t using ne is_digest_clean(1) [OF h(1)]
    by (cases ks rule: join_nl.cases) auto
  moreover have "last text = last (last ks)"
    unfolding t using ne d
  proof (induction ks rule: join_nl.induct)
    case (3 x y ys)
    then have "join_nl (y # ys) \<noteq> []" by (cases ys) (auto dest: is_digest_clean(1))
    with 3 show ?case by simp
  qed simp_all
  moreover have "text \<noteq> []"
    unfolding t using ne is_digest_clean(1) [OF h(1)] by (cases ks rule: join_nl.cases) auto
  ultimately show "strip text = text"
    using is_digest_clean [OF h(1)] is_digest_clean [OF h(2)] by (simp add: strip_id)
  then show "load_uploaded_qsos (Some text) = set (split_nl text)"
    by (simp add: load_uploaded_qsos_def)
qed

lemma wf_cache_save:
  assumes "wf_cache cache" and "is_digest k"
  shows "wf_cache (save_uploaded_qso k cache)"
    and "load_uploaded_qsos (save_uploaded_qso k cache) = insert k (load_uploaded_qsos cache)"
proof -
  define ks where "ks = sorted_list_of_set (insert k (load_uploaded_qsos cache))"
  have s: "save_uploaded_qso k cache = Some (join_nl ks)"
    by (simp add: save_uploaded_qso_def ks_def)
  have set: "set ks = insert k (load_uploaded_qsos cache)"
    unfolding ks_def by (rule set_sorted_list_of_set) simp
  have "\<forall>x\<in>load_uploaded_qsos cache. is_digest x"
  proof (cases cache)
    case None
    then show ?thesis by (simp add: load_uploaded_qsos_def)
  next
    case (Some content)
    with assms(1) show ?thesis
      by (simp add: wf_cache_text(2) wf_cache_def list_all_iff)
  qed
  with assms(2) set have d: "\<forall>x\<in>set ks. is_digest x" by auto
  have ne: "ks \<noteq> []" using set by auto
  have sp: "split_nl (join_nl ks) = ks"
    using ne d by (intro split_join_nl) (auto dest: is_digest_clean(4))
  have "sorted ks" "distinct ks"
    unfolding ks_def by (rule sorted_sorted_list_of_set, rule distinct_sorted_list_of_set)
  with d show wf: "wf_cache (save_uploaded_qso k cache)"
    by (simp add: s wf_cache_def sp list_all_iff)
  show "load_uploaded_qsos (save_uploaded_qso k cache) = insert k (load_uploaded_qsos cache)"
    using wf_cache_text(2) [OF wf [unfolded s]] by (simp add: s sp set)
qed

lemma wf_cache_save_present:
  assumes "wf_cache cache" and "k \<in> load_uploaded_qsos cache"
  shows "save_uploaded_qso k cache = cache"
proof (cases cache)
  case None
  with assms show ?thesis by (simp add: load_uploaded_qsos_def)
next
  case (Some content)
  with assms have l: "load_uploaded_qsos cache = set (split_nl content)"
    by (simp add: wf_cache_text(2))
  with assms have "insert k (load_uploaded_qsos cache) = set (split_nl content)" by auto
  moreover have "sorted_list_of_set (set (split_nl content)) = split_nl content"
    using assms(1) Some by (simp add: wf_cache_def sorted_list_of_set.idem_if_sorted_distinct)
  ultimately show ?thesis
    by (simp add: save_uploaded_qso_def Some join_split_nl)
qed

lemma cache_state_wf: "cache_state cache \<Longrightarrow> wf_cache cache"
proof (induction rule: cache_state.induct)
  case absent
  show ?case by (simp add: wf_cache_def)
next
  case (saved cache k)
  then show ?case by (simp add: wf_cache_save(1))
next
  case (cleared cache)
  show ?case by (simp add: clear_cache_def wf_cache_def)
qed

section \<open>One record through the upload client\<close>

lemma push_record_cache_file [simp]: "cache_file (snd (push_record p s w)) = cache_file w"
  by (simp add: push_record_def Let_def split: option.splits response.splits)

lemma push_record_server [simp]: "server (snd (push_record p s w)) = server w"
  by (simp add: push_record_def Let_def split: option.splits response.splits)

lemma push_record_posts:
  "posts (snd (push_record p s w)) =
     (case parse_line s of None \<Rightarrow> posts w | Some r \<Rightarrow> posts w @ [request p s])"
  by (simp add: push_record_def request_def Let_def split: option.splits response.splits)

lemma push_record_invalid:
  "parse_line s = None \<Longrightarrow> push_record p s w = ((False, Some ''Invalid ADIF format''), w)"
  by (simp add: push_record_def)

lemma push_record_ok_iff:
  "fst (fst (push_record p s w)) \<longleftrightarrow>
     parse_line s \<noteq> None \<and> (\<exists>body. server w (length (posts w)) = Http 200 body
         \<or> server w (length (posts w)) = Http 201 body)"
  by (auto simp: push_record_def Let_def split: option.splits response.splits)

lemma push_record_world:
  "parse_line s = Some r \<Longrightarrow>
     snd (push_record p s w) = w\<lparr>posts := posts w @ [request p s]\<rparr>"
  by (simp add: push_record_def request_def Let_def split: response.splits)

lemma push_line_cases:
  "push_line p up idx line (t, w) =
     (if strip line = [] \<or> startswith (strip line) ''#'' then (t, w)
      else if calculate_hash (strip line) \<noteq> [] \<and> calculate_hash (strip line) \<in> up
        then (t\<lparr>skipped := skipped t + 1\<rparr>, w)
      else if fst (fst (push_record p (strip line) w))
        then (t\<lparr>success := success t + 1\<rparr>,
              if calculate_hash (strip line) \<noteq> []
              then (snd (push_record p (strip line) w))
                     \<lparr>cache_file := save_uploaded_qso (calculate_hash (strip line)) (cache_file w)\<rparr>
              else snd (push_record p (strip line) w))
      else (t\<lparr>failed := failed t + 1,
              errors := errors t @ [''  Line '' @ show_nat idx @ '': ''
                 @ (case snd (fst (push_record p (strip line) w)) of
                      None \<Rightarrow> ''None'' | Some r \<Rightarrow> r)]\<rparr>,
            snd (push_record p (strip line) w)))"
  by (simp add: push_line_def Let_def case_prod_beta)

lemma parse_message_cases:
  "parse_message p text_data (l, w) =
     (if \<not> contains ''<QSO_DATE:'' text_data \<or> \<not> contains ''<CALL:'' text_data then (l, w)
      else case search_adif text_data of
        None \<Rightarrow> (l, w)
      | Some adif_line \<Rightarrow>
          if calculate_hash adif_line \<in> last_uploaded_qsos l \<or> parse_line adif_line = None
          then (l, w)
          else if fst (fst (push_record p adif_line w)) \<and> calculate_hash adif_line \<noteq> []
          then (l\<lparr>last_uploaded_qsos := insert (calculate_hash adif_line) (last_uploaded_qsos l)\<rparr>,
                (snd (push_record p adif_line w))
                  \<lparr>cache_file := save_uploaded_qso (calculate_hash adif_line) (cache_file w)\<rparr>)
          else (l, snd (push_record p adif_line w)))"
  by (simp add: parse_message_def Let_def case_prod_beta split: option.splits)

lemma push_record_accepted:
  "fst (fst (push_record p s w)) \<longleftrightarrow> parse_line s \<noteq> None \<and> accepted (server w (length (posts w)))"
  by (auto simp: push_record_def Let_def split: option.splits response.splits)

section \<open>The loop of \<^verbatim>\<open>push_file\<close>\<close>

lemma push_line_server: "server (snd (push_line p up idx line (t, w))) = server w"
  by (simp add: push_line_cases)

lemma push_line_posts:
  "posts (snd (push_line p up idx line (t, w))) = posts w
   \<or> (posts (snd (push_line p up idx line (t, w))) = posts w @ [request p (strip line)]
       \<and> is_record_line line
       \<and> \<not> (calculate_hash (strip line) \<noteq> [] \<and> calculate_hash (strip line) \<in> up)
       \<and> parse_line (strip line) \<noteq> None)"
  by (cases "parse_line (strip line)") (auto simp: push_line_cases push_record_posts is_record_line_def)

lemma push_lines_server: "server (snd (push_lines p up idx lines tw)) = server (snd tw)"
proof (induction lines arbitrary: idx tw)
  case Nil
  then show ?case by simp
next
  case (Cons line lines)
  then show ?case by (cases tw) (simp add: push_line_server)
qed

lemma push_lines_posts_mono:
  "length (posts (snd tw)) \<le> length (posts (snd (push_lines p up idx lines tw)))"
proof (induction lines arbitrary: idx tw)
  case Nil
  then show ?case by simp
next
  case (Cons line lines)
  obtain t w where tw: "tw = (t, w)" by (cases tw)
  have "length (posts w) \<le> length (posts (snd (push_line p up idx line (t, w))))"
    using push_line_posts [of p up idx line t w] by auto
  also have "\<dots> \<le> length (posts (snd (push_lines p up (idx + 1) lines (push_line p up idx line (t, w)))))"
    by (rule Cons.IH)
  finally show ?case by (simp add: tw)
qed

lemma push_line_records_key:
  assumes ok: "length (posts w) < length (posts (snd (push_line p up idx line (t, w))))
                 \<longrightarrow> accepted (server w (length (posts w)))"
    and S: "\<forall>k\<in>S. is_digest k \<and> k \<in> load_uploaded_qsos (cache_file w)"
    and up: "\<forall>k\<in>up. is_digest k \<longrightarrow> k \<in> S"
  shows "\<forall>k\<in>S \<union> (if valid_record line then {calculate_hash (strip line)} else {}).
           is_digest k \<and> k \<in> load_uploaded_qsos (cache_file (snd (push_line p up idx line (t, w))))"
proof (cases "valid_record line")
  case False
  then have "cache_file (snd (push_line p up idx line (t, w))) = cache_file w"
    by (auto simp: push_line_cases valid_record_def is_record_line_def push_record_accepted
        split: option.splits)
  with S False show ?thesis by simp
next
  case True
  define h where "h = calculate_hash (strip line)"
  from True obtain r where r: "parse_line (strip line) = Some r"
    and rl: "strip line \<noteq> []" "\<not> startswith (strip line) ''#''"
    by (auto simp: valid_record_def is_record_line_def split: option.splits)
  have dh: "is_digest h" unfolding h_def using r by (rule calculate_hash_digest)
  then have hne: "h \<noteq> []" by (rule is_digest_clean(1))
  show ?thesis
  proof (cases "h \<in> up")
    case True
    with dh up have "h \<in> S" by blast
    moreover have "cache_file (snd (push_line p up idx line (t, w))) = cache_file w"
      using True hne by (simp add: push_line_cases h_def)
    ultimately show ?thesis using S \<open>valid_record line\<close> by (auto simp: h_def)
  next
    case False
    have "posts (snd (push_line p up idx line (t, w))) = posts (snd (push_record p (strip line) w))"
      using False rl by (simp add: push_line_cases h_def)
    then have "length (posts w) < length (posts (snd (push_line p up idx line (t, w))))"
      by (simp add: push_record_posts r)
    with ok have "accepted (server w (length (posts w)))" by blast
    then have "fst (fst (push_record p (strip line) w))"
      by (simp add: push_record_accepted r)
    then have c: "cache_file (snd (push_line p up idx line (t, w)))
        = save_uploaded_qso h (cache_file w)"
      using False rl hne by (simp add: push_line_cases h_def)
    have "\<forall>k\<in>insert h S. is_digest k \<and> k \<in> load_uploaded_qsos (save_uploaded_qso h (cache_file w))"
      using S dh by (auto intro: load_save_member)
    then show ?thesis using \<open>valid_record line\<close> by (simp add: c h_def)
  qed
qed

lemma push_lines_records_keys:
  assumes "\<forall>n. length (posts w) \<le> n \<and> n < length (posts (snd (push_lines p up idx lines (t, w))))
              \<longrightarrow> accepted (server w n)"
    and "\<forall>k\<in>S. is_digest k \<and> k \<in> load_uploaded_qsos (cache_file w)"
    and "\<forall>k\<in>up. is_digest k \<longrightarrow> k \<in> S"
  shows "\<forall>k\<in>S \<union> {calculate_hash (strip l) | l. l \<in> set lines \<and> valid_record l}.
           k \<in> load_uploaded_qsos (cache_file (snd (push_lines p up idx lines (t, w))))"
  using assms
proof (induction lines arbitrary: idx t w S)
  case Nil
  then show ?case by simp
next
  case (Cons line lines)
  define tw' where "tw' = push_line p up idx line (t, w)"
  define S' where "S' = S \<union> (if valid_record line then {calculate_hash (strip line)} else {})"
  obtain t' w' where tw: "tw' = (t', w')" by (cases tw')
  have fin: "push_lines p up idx (line # lines) (t, w) = push_lines p up (idx + 1) lines (t', w')"
    by (simp add: tw'_def [symmetric] tw)
  have mono: "length (posts w') \<le> length (posts (snd (push_lines p up (idx + 1) lines (t', w'))))"
    using push_lines_posts_mono [of "(t', w')"] by simp
  have srv: "server w' = server w"
    using push_line_server [of p up idx line t w] by (simp add: tw'_def [symmetric] tw)
  have le: "length (posts w) \<le> length (posts w')"
    using push_line_posts [of p up idx line t w] by (auto simp: tw'_def [symmetric] tw)
  note p1 = Cons.prems(1) [unfolded fin]
  have "length (posts w) < length (posts (snd (push_line p up idx line (t, w))))
          \<longrightarrow> accepted (server w (length (posts w)))"
    using p1 mono by (simp add: tw'_def [symmetric] tw)
  from push_line_records_key [OF this Cons.prems(2) Cons.prems(3)]
  have S': "\<forall>k\<in>S'. is_digest k \<and> k \<in> load_uploaded_qsos (cache_file w')"
    by (simp add: S'_def tw'_def [symmetric] tw)
  have up': "\<forall>k\<in>up. is_digest k \<longrightarrow> k \<in> S'"
    using Cons.prems(3) by (simp add: S'_def)
  have ok': "\<forall>n. length (posts w') \<le> n
      \<and> n < length (posts (snd (push_lines p up (idx + 1) lines (t', w')))) \<longrightarrow> accepted (server w' n)"
    using p1 le by (simp add: srv)
  have "\<forall>k\<in>S' \<union> {calculate_hash (strip l) | l. l \<in> set lines \<and> valid_record l}.
           k \<in> load_uploaded_qsos (cache_file (snd (push_lines p up (idx + 1) lines (t', w'))))"
    using ok' S' up' by (rule Cons.IH)
  then show ?case unfolding fin S'_def by auto
qed

lemma push_lines_all_known:
  assumes "\<forall>l\<in>set lines. valid_record l \<longrightarrow> calculate_hash (strip l) \<in> up"
  shows "snd (push_lines p up idx lines (t, w)) = w
    \<and> success (fst (push_lines p up idx lines (t, w))) = success t
    \<and> failed (fst (push_lines p up idx lines (t, w))) = failed t + length (filter invalid_record lines)
    \<and> skipped (fst (push_lines p up idx lines (t, w))) = skipped t + length (filter valid_record lines)"
  using assms
proof (induction lines arbitrary: idx t)
  case Nil
  then show ?case by simp
next
  case (Cons line lines)
  have step: "\<exists>t'. push_line p up idx line (t, w) = (t', w) \<and> success t' = success t
     \<and> failed t' = failed t + (if invalid_record line then 1 else 0)
     \<and> skipped t' = skipped t + (if valid_record line then 1 else 0)"
  proof (cases "parse_line (strip line)")
    case None
    then show ?thesis
      by (simp add: push_line_cases valid_record_def invalid_record_def is_record_line_def
          calculate_hash_invalid push_record_invalid)
  next
    case (Some r)
    have "valid_record line \<Longrightarrow> calculate_hash (strip line) \<noteq> [] \<and> calculate_hash (strip line) \<in> up"
      using Cons.prems calculate_hash_digest [OF Some] by (auto dest: is_digest_clean(1))
    then show ?thesis
      using Some by (auto simp: push_line_cases valid_record_def invalid_record_def is_record_line_def)
  qed
  then obtain t' where t': "push_line p up idx line (t, w) = (t', w)" "success t' = success t"
     "failed t' = failed t + (if invalid_record line then 1 else 0)"
     "skipped t' = skipped t + (if valid_record line then 1 else 0)" by blast
  have "\<forall>l\<in>set lines. valid_record l \<longrightarrow> calculate_hash (strip l) \<in> up"
    using Cons.prems by simp
  from Cons.IH [OF this, of "idx + 1" t'] show ?case
    by (simp add: t')
qed

section \<open>What the parser ignores and what it keeps\<close>

text \<open>Text before the first tag is skipped, whitespace or not.\<close>

lemma findall_skip: "CHR ''<'' \<notin> set ws \<Longrightarrow> findall (ws @ s) = findall s"
  by (induction ws) (auto simp: match_tag_def)

lemma calculate_hash_leading_text:
  "CHR ''<'' \<notin> set ws \<Longrightarrow> calculate_hash (ws @ s) = calculate_hash s"
  by (simp add: calculate_hash_def parse_line_def findall_skip)

text \<open>
  The key depends on a text only through the five values \<^verbatim>\<open>parse_line\<close> gives for it,
  and the key of a text that parses is a digest.
\<close>

lemma calculate_hash_same_fields:
  assumes "parse_line a = Some ra" and "parse_line b = Some rb"
    and "identifying_fields ra = identifying_fields rb"
  shows "calculate_hash a = calculate_hash b \<and> is_digest (calculate_hash a)"
proof -
  from assms(3) have "normalized ra = normalized rb"
    by (simp add: normalized_def identifying_fields_def)
  with assms(1,2) have "calculate_hash a = calculate_hash b"
    by (simp add: calculate_hash_def)
  moreover from assms(1) have "is_digest (calculate_hash a)"
    by (rule calculate_hash_digest)
  ultimately show ?thesis ..
qed


section \<open>The claims\<close>

subsection \<open>The duplicate key\<close>


text \<open>
  C10. Two record texts that parse to different identifying values and still get the
  same duplicate key: the values are joined with underscores that the values themselves
  may contain. Date \<^verbatim>\<open>2024\<close> with time \<^verbatim>\<open>x_\<close> and date \<^verbatim>\<open>2024_x\<close> with an empty time
  both give the text \<^verbatim>\<open>2024_x__c__\<close> to the hash.
\<close>

theorem calculate_hash_collision:
  "map_option identifying_fields (parse_line ''<QSO_DATE:4>2024<TIME_ON:2>x_<CALL:1>c'')
     = Some (''2024'', ''x_'', ''c'', '''', '''')
   \<and> map_option identifying_fields (parse_line ''<QSO_DATE:6>2024_x<TIME_ON:0><CALL:1>c'')
     = Some (''2024_x'', '''', ''c'', '''', '''')
   \<and> calculate_hash ''<QSO_DATE:4>2024<TIME_ON:2>x_<CALL:1>c''
     = calculate_hash ''<QSO_DATE:6>2024_x<TIME_ON:0><CALL:1>c''
   \<and> is_digest (calculate_hash ''<QSO_DATE:4>2024<TIME_ON:2>x_<CALL:1>c'')"
proof -
  have a: "parse_line ''<QSO_DATE:4>2024<TIME_ON:2>x_<CALL:1>c''
      = Some [''qso_date'' \<mapsto> ''2024'', ''time_on'' \<mapsto> ''x_'', ''call'' \<mapsto> ''c'']"
    by (simp add: eval_parse)
  have b: "parse_line ''<QSO_DATE:6>2024_x<TIME_ON:0><CALL:1>c''
      = Some [''qso_date'' \<mapsto> ''2024_x'', ''time_on'' \<mapsto> '''', ''call'' \<mapsto> ''c'']"
    by (simp add: eval_parse)
  show ?thesis
    by (simp add: a b calculate_hash_def normalized_def identifying_fields_def get_field_def
        is_digest_sha256_hex)
qed

subsection \<open>Reading the file\<close>

text \<open>
  C7. \<^verbatim>\<open>read_file\<close> returns the lines of the first attempt that succeeds among the
  first five, after one attempt and one sleep of 0.5 seconds for each failure before it;
  when all five fail it raises the error of the fifth, after five attempts and four
  sleeps. It never makes more than five attempts, and when it raises, \<^verbatim>\<open>push_file\<close>
  returns zero counts and leaves the world as it was.
\<close>

theorem read_file_retries:
  "read_file fs =
     (case find (\<lambda>i. \<not> isl (fs i)) [0..<5] of
        Some i \<Rightarrow> (Inr (Some (projr (fs i))),
                   concat (replicate i [Open_attempt, Sleep 500]) @ [Open_attempt])
      | None \<Rightarrow> (Inl (projl (fs 4)),
                 concat (replicate 4 [Open_attempt, Sleep 500]) @ [Open_attempt]))
   \<and> length (filter (\<lambda>e. e = Open_attempt) (snd (read_file fs))) \<le> 5
   \<and> ((\<forall>i<5. isl (fs i)) \<longrightarrow>
        push_file p fs skip_duplicates w
          = (Inr \<lparr>c_success = 0, c_failed = 0, c_skipped = 0\<rparr>, w))"
proof -
  have r: "read_file fs =
     (case find (\<lambda>i. \<not> isl (fs i)) [0..<5] of
        Some i \<Rightarrow> (Inr (Some (projr (fs i))),
                   concat (replicate i [Open_attempt, Sleep 500]) @ [Open_attempt])
      | None \<Rightarrow> (Inl (projl (fs 4)),
                 concat (replicate 4 [Open_attempt, Sleep 500]) @ [Open_attempt]))"
    by (cases "fs 0"; cases "fs 1"; cases "fs 2"; cases "fs 3"; cases "fs 4")
       (simp_all add: read_file_def max_retries_def upt5 eval_nat_numeral)
  have c: "length (filter (\<lambda>e. e = Open_attempt) (snd (read_file fs))) \<le> 5"
    unfolding r by (simp add: upt5 eval_nat_numeral)
  have p: "push_file p fs skip_duplicates w
          = (Inr \<lparr>c_success = 0, c_failed = 0, c_skipped = 0\<rparr>, w)" if "\<forall>i<5. isl (fs i)"
  proof -
    from that have "find (\<lambda>i. \<not> isl (fs i)) [0..<5] = None"
      by (simp add: find_None_iff)
    then show ?thesis by (simp add: push_file_def r)
  qed
  from r c p show ?thesis by blast
qed

text \<open>A file that is locked for the first two attempts, and one that stays locked.\<close>

theorem read_file_retries_witness:
  "read_file (\<lambda>i. if i < 2 then Inl (IOError ''locked'') else Inr [''a''])
     = (Inr (Some [''a'']),
        [Open_attempt, Sleep 500, Open_attempt, Sleep 500, Open_attempt])
   \<and> read_file (\<lambda>i. Inl (IOError ''locked''))
     = (Inl (IOError ''locked''),
        [Open_attempt, Sleep 500, Open_attempt, Sleep 500, Open_attempt, Sleep 500,
         Open_attempt, Sleep 500, Open_attempt])
   \<and> push_file example_pusher (\<lambda>i. Inl (IOError ''locked'')) True accepting_world
     = (Inr \<lparr>c_success = 0, c_failed = 0, c_skipped = 0\<rparr>, accepting_world)"
  using read_file_retries [of "\<lambda>i. if i < 2 then Inl (IOError ''locked'') else Inr [''a'']"
      example_pusher True accepting_world]
    read_file_retries [of "\<lambda>i. Inl (IOError ''locked'')" example_pusher True accepting_world]
  by (simp add: upt5 eval_nat_numeral)

subsection \<open>The upload client\<close>

text \<open>
  C2. The claim fails on the code. \<^verbatim>\<open>push_record\<close> cleans the \<^verbatim>\<open>tx_pwr\<close> value in the
  parsed record and then sends the line it was given, not the record: for a line whose
  power is \<^verbatim>\<open>50W\<close> the request carries the line with \<^verbatim>\<open>50W\<close> in it.
\<close>

theorem push_record_sends_raw_line:
  "map_option (\<lambda>r. get_field r ''tx_pwr'')
      (parse_line ''<call:1>c<qso_date:8>20240115<time_on:4>1430<tx_pwr:3>50W'') = Some ''50W''
   \<and> push_record example_pusher ''<call:1>c<qso_date:8>20240115<time_on:4>1430<tx_pwr:3>50W''
        accepting_world
     = ((True, None),
        accepting_world\<lparr>posts :=
          [\<lparr>p_key = ''secret'', p_station_profile_id = ''1'', p_type = ''adif'',
            p_string = ''<call:1>c<qso_date:8>20240115<time_on:4>1430<tx_pwr:3>50W''\<rparr>]\<rparr>)"
proof -
  have "parse_line ''<call:1>c<qso_date:8>20240115<time_on:4>1430<tx_pwr:3>50W''
     = Some [''call'' \<mapsto> ''c'', ''qso_date'' \<mapsto> ''20240115'', ''time_on'' \<mapsto> ''1430'',
             ''tx_pwr'' \<mapsto> ''50W'']"
    by (simp add: eval_parse)
  then show ?thesis
    by (simp add: push_record_def Let_def example_pusher_def accepting_world_def get_field_def)
qed

text \<open>
  C5. When the upload client returns an error for a record, the step of \<^verbatim>\<open>push_file\<close>
  for its line leaves the cache file as it was, whatever snapshot of the cache the run
  started with; and if the record was posted in that step, the same step from the state
  reached, with the cache loaded again, posts it again. The same holds for the listener
  and the datagram the record was extracted from, whose in-memory set is unchanged too.
\<close>

theorem delivery_error_keeps_cache:
  "(\<not> fst (fst (push_record p (strip line) w)) \<longrightarrow>
      cache_file (snd (push_line p up idx line (t, w))) = cache_file w
      \<and> (let tw1 = push_line p (load_uploaded_qsos (cache_file w)) idx line (t, w) in
           posts (snd tw1) \<noteq> posts w \<longrightarrow>
             posts (snd (push_line p (load_uploaded_qsos (cache_file (snd tw1))) idx' line tw1))
               = posts (snd tw1) @ [request p (strip line)]))
   \<and> (search_adif text_data = Some adif_line \<and> \<not> fst (fst (push_record p adif_line w)) \<longrightarrow>
      (let lw1 = parse_message p text_data (l, w) in
         cache_file (snd lw1) = cache_file w \<and> fst lw1 = l
         \<and> (posts (snd lw1) \<noteq> posts w \<longrightarrow>
              posts (snd (parse_message p text_data lw1)) = posts (snd lw1) @ [request p adif_line])))"
proof (intro conjI impI)
  assume err: "\<not> fst (fst (push_record p (strip line) w))"
  then show "cache_file (snd (push_line p up idx line (t, w))) = cache_file w"
    by (simp add: push_line_cases)
next
  assume err: "\<not> fst (fst (push_record p (strip line) w))"
  define up0 where "up0 = load_uploaded_qsos (cache_file w)"
  define tw1 where "tw1 = push_line p up0 idx line (t, w)"
  have c: "cache_file (snd tw1) = cache_file w"
    using err by (simp add: tw1_def push_line_cases)
  have "posts (snd (push_line p (load_uploaded_qsos (cache_file (snd tw1))) idx' line tw1))
          = posts (snd tw1) @ [request p (strip line)]" if ne: "posts (snd tw1) \<noteq> posts w"
  proof -
    from ne have nb: "\<not> (strip line = [] \<or> startswith (strip line) ''#'')"
      and nd: "\<not> (calculate_hash (strip line) \<noteq> [] \<and> calculate_hash (strip line) \<in> up0)"
      by (auto simp: tw1_def push_line_cases split: if_splits)
    with ne have tw1: "snd tw1 = snd (push_record p (strip line) w)"
      by (simp add: tw1_def push_line_cases err)
    with ne obtain r where r: "parse_line (strip line) = Some r"
      by (cases "parse_line (strip line)") (auto simp: push_record_posts)
    obtain t1 w1 where tw: "tw1 = (t1, w1)" by (cases tw1)
    have "posts (snd (push_line p up0 idx' line (t1, w1))) = posts w1 @ [request p (strip line)]"
      using nb nd r by (simp add: push_line_cases push_record_posts)
    then show ?thesis using c tw by (simp add: up0_def)
  qed
  then show "let tw1 = push_line p (load_uploaded_qsos (cache_file w)) idx line (t, w) in
           posts (snd tw1) \<noteq> posts w \<longrightarrow>
             posts (snd (push_line p (load_uploaded_qsos (cache_file (snd tw1))) idx' line tw1))
               = posts (snd tw1) @ [request p (strip line)]"
    by (simp add: Let_def tw1_def up0_def)
next
  assume h: "search_adif text_data = Some adif_line \<and> \<not> fst (fst (push_record p adif_line w))"
  define lw1 where "lw1 = parse_message p text_data (l, w)"
  have c: "cache_file (snd lw1) = cache_file w" and f: "fst lw1 = l"
    using h by (simp_all add: lw1_def parse_message_cases)
  have "posts (snd (parse_message p text_data lw1)) = posts (snd lw1) @ [request p adif_line]"
    if ne: "posts (snd lw1) \<noteq> posts w"
  proof -
    from ne h have g: "contains ''<QSO_DATE:'' text_data" "contains ''<CALL:'' text_data"
      "calculate_hash adif_line \<notin> last_uploaded_qsos l" "parse_line adif_line \<noteq> None"
      by (auto simp: lw1_def parse_message_cases split: if_splits)
    obtain w1 where lw: "lw1 = (l, w1)" using f by (cases lw1) auto
    have "posts (snd (parse_message p text_data (l, w1))) = posts w1 @ [request p adif_line]"
      using g h by (auto simp: parse_message_cases push_record_posts)
    then show ?thesis using lw by simp
  qed
  with c f show "let lw1 = parse_message p text_data (l, w) in
         cache_file (snd lw1) = cache_file w \<and> fst lw1 = l
         \<and> (posts (snd lw1) \<noteq> posts w \<longrightarrow>
              posts (snd (parse_message p text_data lw1)) = posts (snd lw1) @ [request p adif_line])"
    by (simp add: Let_def lw1_def)
qed

text \<open>A server that answers 500, a line of a file and a datagram with the same contact.\<close>

theorem delivery_error_keeps_cache_witness:
  "\<not> fst (fst (push_record example_pusher
          (strip ''<call:1>c<qso_date:8>20240115<time_on:4>1430'') failing_world))
   \<and> cache_file (snd (push_line example_pusher {} 1 ''<call:1>c<qso_date:8>20240115<time_on:4>1430''
         (\<lparr>success = 0, failed = 0, skipped = 0, errors = []\<rparr>, failing_world)))
     = cache_file failing_world
   \<and> search_adif ''WSJT-X <QSO_DATE:8>20240115<TIME_ON:4>1430<CALL:1>c<EOR> more''
     = Some ''<QSO_DATE:8>20240115<TIME_ON:4>1430<CALL:1>c<EOR>''
   \<and> cache_file (snd (parse_message example_pusher
         ''WSJT-X <QSO_DATE:8>20240115<TIME_ON:4>1430<CALL:1>c<EOR> more''
         (\<lparr>last_uploaded_qsos = {}\<rparr>, failing_world)))
     = cache_file failing_world"
proof -
  have h1: "\<not> fst (fst (push_record example_pusher
          (strip ''<call:1>c<qso_date:8>20240115<time_on:4>1430'') failing_world))"
    by (simp add: push_record_accepted failing_world_def)
  have h2: "search_adif ''WSJT-X <QSO_DATE:8>20240115<TIME_ON:4>1430<CALL:1>c<EOR> more''
     = Some ''<QSO_DATE:8>20240115<TIME_ON:4>1430<CALL:1>c<EOR>''"
    by (simp add: match_adif_def Let_def is_digit_def less_eq_char_def newline_def)
  have h3: "\<not> fst (fst (push_record example_pusher
          ''<QSO_DATE:8>20240115<TIME_ON:4>1430<CALL:1>c<EOR>'' failing_world))"
    by (simp add: push_record_accepted failing_world_def)
  from delivery_error_keeps_cache
    [where p = example_pusher and line = "''<call:1>c<qso_date:8>20240115<time_on:4>1430''"
       and w = failing_world and up = "{}" and idx = 1
       and t = "\<lparr>success = 0, failed = 0, skipped = 0, errors = []\<rparr>"
       and text_data = "''WSJT-X <QSO_DATE:8>20240115<TIME_ON:4>1430<CALL:1>c<EOR> more''"
       and adif_line = "''<QSO_DATE:8>20240115<TIME_ON:4>1430<CALL:1>c<EOR>''"
       and l = "\<lparr>last_uploaded_qsos = {}\<rparr>"]
    h1 h2 h3
  show ?thesis by (simp add: Let_def)
qed

subsection \<open>The listener\<close>

text \<open>
  C9. A datagram whose text has no \<^verbatim>\<open><QSO_DATE:\<close> or no \<^verbatim>\<open><CALL:\<close>, or in which the
  pattern of a record is not found, or whose extracted record does not parse, leaves the
  listener and the world as they were: no request is posted, nothing is saved, and the
  handler returns to the receive loop.
\<close>

theorem malformed_datagram_ignored:
  assumes "\<not> contains ''<QSO_DATE:'' text_data \<or> \<not> contains ''<CALL:'' text_data
           \<or> search_adif text_data = None
           \<or> (\<exists>adif_line. search_adif text_data = Some adif_line \<and> parse_line adif_line = None)"
  shows "parse_message p text_data (l, w) = (l, w)"
  using assms by (auto simp: parse_message_cases)

theorem malformed_datagram_ignored_witness:
  "parse_message example_pusher ''WSJT-X 2.6.1 heartbeat <CALL:5>W1ABC''
       (\<lparr>last_uploaded_qsos = {}\<rparr>, accepting_world)
     = (\<lparr>last_uploaded_qsos = {}\<rparr>, accepting_world)"
proof -
  have "\<not> contains ''<QSO_DATE:'' ''WSJT-X 2.6.1 heartbeat <CALL:5>W1ABC''"
    by simp
  then show ?thesis by (intro malformed_datagram_ignored disjI1)
qed

subsection \<open>The file ingestor\<close>

text \<open>
  C1. The claim fails on the code. \<^verbatim>\<open>push_file\<close> loads the cache once, before the
  loop, and never adds to that set: the key saved after the first line is in the cache
  file but not in the set the second line is checked against. For a file with the same
  record on two lines, an empty cache and a server that accepts, both lines are posted
  and counted as successes and none is skipped.
\<close>

theorem push_file_resends_duplicate_line:
  "cache_file (snd (push_line example_pusher {} 1 ''<call:1>c<qso_date:8>20240115<time_on:4>1430''
        (\<lparr>success = 0, failed = 0, skipped = 0, errors = []\<rparr>, accepting_world)))
     = Some (calculate_hash ''<call:1>c<qso_date:8>20240115<time_on:4>1430'')
   \<and> fst (push_file example_pusher
        (\<lambda>n. Inr [''<call:1>c<qso_date:8>20240115<time_on:4>1430'',
                   ''<call:1>c<qso_date:8>20240115<time_on:4>1430'']) True accepting_world)
     = Inr \<lparr>c_success = 2, c_failed = 0, c_skipped = 0\<rparr>
   \<and> posts (snd (push_file example_pusher
        (\<lambda>n. Inr [''<call:1>c<qso_date:8>20240115<time_on:4>1430'',
                   ''<call:1>c<qso_date:8>20240115<time_on:4>1430'']) True accepting_world))
     = [request example_pusher ''<call:1>c<qso_date:8>20240115<time_on:4>1430'',
        request example_pusher ''<call:1>c<qso_date:8>20240115<time_on:4>1430'']"
proof -
  have p: "parse_line ''<call:1>c<qso_date:8>20240115<time_on:4>1430''
     = Some [''call'' \<mapsto> ''c'', ''qso_date'' \<mapsto> ''20240115'', ''time_on'' \<mapsto> ''1430'']"
    by (simp add: eval_parse)
  have s: "strip ''<call:1>c<qso_date:8>20240115<time_on:4>1430''
     = ''<call:1>c<qso_date:8>20240115<time_on:4>1430''"
    by (simp add: eval_text)
  have ns: "\<not> startswith ''<call:1>c<qso_date:8>20240115<time_on:4>1430'' ''#''"
    by (simp add: startswith_def)
  have hne: "calculate_hash ''<call:1>c<qso_date:8>20240115<time_on:4>1430'' \<noteq> []"
    using calculate_hash_digest [OF p] by (rule is_digest_clean(1))
  have step: "push_line example_pusher {} idx ''<call:1>c<qso_date:8>20240115<time_on:4>1430'' (t, w)
      = (t\<lparr>success := success t + 1\<rparr>,
         w\<lparr>posts := posts w @ [request example_pusher ''<call:1>c<qso_date:8>20240115<time_on:4>1430''],
           cache_file := save_uploaded_qso
             (calculate_hash ''<call:1>c<qso_date:8>20240115<time_on:4>1430'') (cache_file w)\<rparr>)"
    if "accepted (server w (length (posts w)))" for idx t w
    using that by (simp add: push_line_cases s ns hne push_record_accepted p push_record_world [OF p])
  have r: "fst (read_file (\<lambda>n. Inr [''<call:1>c<qso_date:8>20240115<time_on:4>1430'',
                   ''<call:1>c<qso_date:8>20240115<time_on:4>1430''])) =
      Inr (Some [''<call:1>c<qso_date:8>20240115<time_on:4>1430'',
                   ''<call:1>c<qso_date:8>20240115<time_on:4>1430''])"
    by (simp add: read_file_def max_retries_def upt_rec)
  show ?thesis
    by (simp add: push_file_def r step accepting_world_def load_uploaded_qsos_def save_first)
qed

text \<open>
  C4. When \<^verbatim>\<open>push_file\<close> has run over a file and the server accepted every request of
  that run, a second run over the same lines, from the world the first run left, posts
  nothing and changes nothing: it counts no success, it skips every valid record of the
  file, and it fails the lines that do not parse. This holds from any cache file and any
  world, with or without duplicate detection in the first run.
\<close>

theorem push_file_idempotent:
  assumes "fst (read_file fs1) = Inr (Some lines)" and "fst (read_file fs2) = Inr (Some lines)"
    and "\<forall>n. length (posts w) \<le> n \<and> n < length (posts (snd (push_file p fs1 skip_duplicates w)))
           \<longrightarrow> accepted (server w n)"
  shows "push_file p fs2 True (snd (push_file p fs1 skip_duplicates w))
     = (Inr \<lparr>c_success = 0, c_failed = length (filter invalid_record lines),
             c_skipped = length (filter valid_record lines)\<rparr>,
        snd (push_file p fs1 skip_duplicates w))"
proof -
  define up where "up = (if skip_duplicates then load_uploaded_qsos (cache_file w) else {})"
  define t0 where "t0 = \<lparr>success = 0, failed = 0, skipped = 0, errors = []\<rparr>"
  define w1 where "w1 = snd (push_lines p up 1 lines (t0, w))"
  have w1: "snd (push_file p fs1 skip_duplicates w) = w1"
    using assms(1) by (simp add: push_file_def up_def t0_def w1_def Let_def case_prod_beta)
  define S where "S = {k \<in> up. is_digest k}"
  have "\<forall>n. length (posts w) \<le> n \<and> n < length (posts (snd (push_lines p up 1 lines (t0, w))))
           \<longrightarrow> accepted (server w n)"
    using assms(3) by (simp add: w1 w1_def)
  moreover have "\<forall>k\<in>S. is_digest k \<and> k \<in> load_uploaded_qsos (cache_file w)"
    by (auto simp: S_def up_def split: if_splits)
  moreover have "\<forall>k\<in>up. is_digest k \<longrightarrow> k \<in> S" by (simp add: S_def)
  ultimately have "\<forall>k\<in>S \<union> {calculate_hash (strip l) | l. l \<in> set lines \<and> valid_record l}.
           k \<in> load_uploaded_qsos (cache_file (snd (push_lines p up 1 lines (t0, w))))"
    by (rule push_lines_records_keys)
  then have known: "\<forall>l\<in>set lines. valid_record l \<longrightarrow>
      calculate_hash (strip l) \<in> load_uploaded_qsos (cache_file w1)"
    by (auto simp: w1_def)
  have "push_file p fs2 True w1
     = (Inr \<lparr>c_success = 0, c_failed = length (filter invalid_record lines),
             c_skipped = length (filter valid_record lines)\<rparr>, w1)"
    using assms(2) push_lines_all_known [OF known, of p 1 t0 w1]
    by (simp add: push_file_def Let_def case_prod_beta t0_def)
  then show ?thesis by (simp only: w1)
qed

text \<open>A file with a comment, the same record on two lines and a line that is no record.\<close>

theorem push_file_idempotent_witness:
  "fst (read_file (\<lambda>n. Inr [''# log'', ''<call:1>c<qso_date:8>20240115<time_on:4>1430'', ''junk'',
                  ''<call:1>c<qso_date:8>20240115<time_on:4>1430'']))
     = Inr (Some [''# log'', ''<call:1>c<qso_date:8>20240115<time_on:4>1430'', ''junk'',
                  ''<call:1>c<qso_date:8>20240115<time_on:4>1430''])
   \<and> fst (push_file example_pusher
        (\<lambda>n. Inr [''# log'', ''<call:1>c<qso_date:8>20240115<time_on:4>1430'', ''junk'',
                   ''<call:1>c<qso_date:8>20240115<time_on:4>1430'']) True
        (snd (push_file example_pusher
           (\<lambda>n. Inr [''# log'', ''<call:1>c<qso_date:8>20240115<time_on:4>1430'', ''junk'',
                      ''<call:1>c<qso_date:8>20240115<time_on:4>1430'']) True accepting_world)))
     = Inr \<lparr>c_success = 0, c_failed = 1, c_skipped = 2\<rparr>"
proof -
  have p: "parse_line ''<call:1>c<qso_date:8>20240115<time_on:4>1430''
     = Some [''call'' \<mapsto> ''c'', ''qso_date'' \<mapsto> ''20240115'', ''time_on'' \<mapsto> ''1430'']"
    by (simp add: eval_parse)
  have s: "strip ''<call:1>c<qso_date:8>20240115<time_on:4>1430''
     = ''<call:1>c<qso_date:8>20240115<time_on:4>1430''"
    "strip ''# log'' = ''# log''" "strip ''junk'' = ''junk''"
    by (simp_all add: eval_text)
  have j: "parse_line ''junk'' = None"
    by (simp add: eval_parse)
  have v: "length (filter valid_record [''# log'', ''<call:1>c<qso_date:8>20240115<time_on:4>1430'',
      ''junk'', ''<call:1>c<qso_date:8>20240115<time_on:4>1430'']) = 2"
    by (simp add: valid_record_def is_record_line_def s p j startswith_def)
  have i: "length (filter invalid_record [''# log'', ''<call:1>c<qso_date:8>20240115<time_on:4>1430'',
      ''junk'', ''<call:1>c<qso_date:8>20240115<time_on:4>1430'']) = 1"
    by (simp add: invalid_record_def is_record_line_def s p j startswith_def)
  have r: "fst (read_file (\<lambda>n. Inr [''# log'', ''<call:1>c<qso_date:8>20240115<time_on:4>1430'', ''junk'',
                  ''<call:1>c<qso_date:8>20240115<time_on:4>1430'']))
     = Inr (Some [''# log'', ''<call:1>c<qso_date:8>20240115<time_on:4>1430'', ''junk'',
                  ''<call:1>c<qso_date:8>20240115<time_on:4>1430''])"
    by (simp add: read_file_def max_retries_def upt_rec)
  have ok: "\<forall>n. length (posts accepting_world) \<le> n
      \<and> n < length (posts (snd (push_file example_pusher
           (\<lambda>n. Inr [''# log'', ''<call:1>c<qso_date:8>20240115<time_on:4>1430'', ''junk'',
                      ''<call:1>c<qso_date:8>20240115<time_on:4>1430'']) True accepting_world)))
      \<longrightarrow> accepted (server accepting_world n)"
    by (simp add: accepting_world_def)
  from push_file_idempotent [OF r r ok] r show ?thesis
    by (simp only: v i fst_conv)
qed

subsection \<open>The duplicate cache\<close>

text \<open>
  C6. After \<^verbatim>\<open>save_uploaded_qso\<close> of a duplicate key, \<^verbatim>\<open>load_uploaded_qsos\<close> returns a set
  that contains the key, whatever the cache file held before; after the clear operation
  it returns the empty set; and saving a key that the cache already holds leaves the
  file's content as it is. The keys are the digests the callers save, and for the last
  part the cache states are the ones the program produces.
\<close>

theorem cache_round_trip:
  "(is_digest k \<longrightarrow> k \<in> load_uploaded_qsos (save_uploaded_qso k cache))
   \<and> load_uploaded_qsos (clear_cache cache) = {}
   \<and> (cache_state cache \<and> k \<in> load_uploaded_qsos cache \<longrightarrow> save_uploaded_qso k cache = cache)"
proof (intro conjI impI)
  assume "is_digest k"
  then show "k \<in> load_uploaded_qsos (save_uploaded_qso k cache)"
    by (rule load_save_member) simp
next
  show "load_uploaded_qsos (clear_cache cache) = {}"
    by (simp add: clear_cache_def load_uploaded_qsos_def)
next
  assume "cache_state cache \<and> k \<in> load_uploaded_qsos cache"
  then show "save_uploaded_qso k cache = cache"
    by (simp add: wf_cache_save_present cache_state_wf)
qed

theorem cache_round_trip_witness:
  "example_key \<in> load_uploaded_qsos (save_uploaded_qso example_key None)
   \<and> load_uploaded_qsos (clear_cache (save_uploaded_qso example_key None)) = {}
   \<and> save_uploaded_qso example_key (save_uploaded_qso example_key None)
     = save_uploaded_qso example_key None"
proof -
  have "cache_state (save_uploaded_qso example_key None)"
    by (intro cache_state.intros is_digest_example_key)
  with cache_round_trip [of example_key None]
    cache_round_trip [of example_key "save_uploaded_qso example_key None"]
    is_digest_example_key
  show ?thesis by blast
qed

text \<open>
  C8. The claim fails on the code in one point: the file is not newline-terminated.
  \<^verbatim>\<open>save_uploaded_qso\<close> writes the keys joined by newlines, so the last line has no
  newline after it. After the first key is saved the file is that key and nothing else.
\<close>

theorem cache_file_not_newline_terminated:
  "save_uploaded_qso example_key None = Some example_key
   \<and> example_key \<noteq> [] \<and> last example_key \<noteq> newline"
  by (simp add: save_first) (simp add: example_key_def newline_def)

text \<open>
  C8, as amended. After \<^verbatim>\<open>save_uploaded_qso\<close> of a duplicate key the file exists, its
  lines (the pieces between the newlines) are in strictly ascending order, one entry per
  line, and they are the entries loaded before and the key saved: all of them duplicate
  keys when the cache was a state the program produces. The content is not empty and
  does not end with a newline. Loading an absent file gives the empty set.
\<close>

theorem cache_file_format:
  assumes "is_digest k"
  shows "(case save_uploaded_qso k cache of
            None \<Rightarrow> False
          | Some content \<Rightarrow>
              sorted (split_nl content) \<and> distinct (split_nl content)
              \<and> set (split_nl content) = insert k (load_uploaded_qsos cache)
              \<and> (cache_state cache \<longrightarrow> list_all is_digest (split_nl content))
              \<and> content \<noteq> [] \<and> last content \<noteq> newline)
         \<and> load_uploaded_qsos None = {}"
proof -
  define ks where "ks = sorted_list_of_set (insert k (load_uploaded_qsos cache))"
  have s: "save_uploaded_qso k cache = Some (join_nl ks)"
    by (simp add: save_uploaded_qso_def ks_def)
  have set: "set ks = insert k (load_uploaded_qsos cache)"
    unfolding ks_def by (rule set_sorted_list_of_set) simp
  have sd: "sorted ks" "distinct ks"
    unfolding ks_def by (rule sorted_sorted_list_of_set, rule distinct_sorted_list_of_set)
  have k: "k \<in> set ks" "k \<noteq> []" "newline \<notin> set k"
    using set is_digest_clean [OF assms] by auto
  have nl: "\<forall>x\<in>set ks. newline \<notin> set x"
  proof
    fix x assume "x \<in> set ks"
    with set have "x = k \<or> x \<in> load_uploaded_qsos cache" by auto
    then show "newline \<notin> set x"
      using k(3) by (auto simp: load_uploaded_qsos_def split: option.splits dest: split_nl_no_newline)
  qed
  have ne: "ks \<noteq> []" using k(1) by auto
  have sp: "split_nl (join_nl ks) = ks" using ne nl by (rule split_join_nl)
  have "k \<le> last ks" using sd(1) k(1) by (rule sorted_le_last)
  with k(2) have ln: "last ks \<noteq> []" by auto
  then have "last (join_nl ks) = last (last ks)" using ne by (intro last_join_nl)
  moreover have "last (last ks) \<in> set (last ks)" using ln by simp
  moreover have "newline \<notin> set (last ks)" using nl ne by simp
  ultimately have e: "last (join_nl ks) \<noteq> newline" by metis
  have c: "join_nl ks \<noteq> []" using k(1,2) by (rule join_nl_not_Nil)
  have dg: "list_all is_digest ks" if "cache_state cache"
  proof -
    from that have "wf_cache (save_uploaded_qso k cache)"
      by (intro wf_cache_save(1) cache_state_wf assms)
    then show ?thesis by (simp add: s wf_cache_def sp)
  qed
  show ?thesis
    using sd set dg e c by (simp add: s sp load_uploaded_qsos_def)
qed

theorem cache_file_format_witness:
  "(case save_uploaded_qso example_key None of
      None \<Rightarrow> False
    | Some content \<Rightarrow>
        sorted (split_nl content) \<and> distinct (split_nl content)
        \<and> set (split_nl content) = insert example_key (load_uploaded_qsos None)
        \<and> (cache_state None \<longrightarrow> list_all is_digest (split_nl content))
        \<and> content \<noteq> [] \<and> last content \<noteq> newline)
   \<and> load_uploaded_qsos None = {}"
  by (rule cache_file_format [OF is_digest_example_key])

end
